theory Spec2Isabelle
  imports Main
begin

section \<open>Data model: data frames as ordered lists of named series\<close>

text \<open>
  The program \<^verbatim>\<open>bin/merge_tsv.py\<close> reads TSV files with \<^verbatim>\<open>polars.read_csv\<close>, joins
  them on the column \<^verbatim>\<open>SampleID\<close> and writes the result. A polars data frame is an
  ordered list of named series of equal height; a series has a dtype and cells, a cell is a
  value or null. Cell values are kept abstract (type \<open>'v\<close>), null is \<open>None\<close>. The
  dtypes are those the reader infers for a column of a delimited file: integers, floats,
  booleans, and strings for everything else.
\<close>

datatype dtype = Int64 | Float64 | Boolean | Str

type_synonym 'v cells = "'v option list"

type_synonym 'v series = "dtype \<times> 'v cells"

type_synonym 'v dataframe = "(string \<times> 'v series) list"

text \<open>\<^verbatim>\<open>df.columns\<close>: the header, in order.\<close>

definition columns :: "'v dataframe \<Rightarrow> string list" where
  "columns df = map fst df"

text \<open>\<^verbatim>\<open>df[name]\<close>: the series stored under a column name, when there is one.\<close>

definition get_column :: "'v dataframe \<Rightarrow> string \<Rightarrow> 'v series option" where
  "get_column df c = map_of df c"

text \<open>\<^verbatim>\<open>df.drop(name)\<close>: the frame without the column of that name.\<close>

definition drop_column :: "'v dataframe \<Rightarrow> string \<Rightarrow> 'v dataframe" where
  "drop_column df c = filter (\<lambda>(n, s). n \<noteq> c) df"

text \<open>The join key of the program, and the suffix polars gives to a colliding right column.\<close>

definition key :: string where
  "key = ''SampleID''"

definition suffix :: string where
  "suffix = ''_right''"

definition key_right :: string where
  "key_right = ''SampleID_right''"

text \<open>
  The \<^verbatim>\<open>SampleID\<close> cells of a frame, in row order (none when the column is missing),
  and the dtype of the column.
\<close>

definition key_series :: "'v dataframe \<Rightarrow> 'v cells" where
  "key_series df = (case get_column df key of Some s \<Rightarrow> snd s | None \<Rightarrow> [])"

definition key_dtype :: "'v dataframe \<Rightarrow> dtype option" where
  "key_dtype df = map_option fst (get_column df key)"

text \<open>The \<^verbatim>\<open>SampleID\<close> values of a frame: the non-null cells of its key series.\<close>

definition key_values :: "'v dataframe \<Rightarrow> 'v set" where
  "key_values df = set (List.map_filter (\<lambda>c. c) (key_series df))"

section \<open>Errors and join modes\<close>

text \<open>What \<^verbatim>\<open>pl.read_csv\<close> raises on a path it cannot read or parse.\<close>

datatype read_error = FileNotFoundError | NoDataError | ComputeError

text \<open>
  Every way \<^verbatim>\<open>merge_tsv\<close> stops early: \<^verbatim>\<open>sys.exit(1)\<close>, an exception of the reader,
  the \<^verbatim>\<open>ValueError\<close> of the validation loop with its message, the errors polars' join
  raises (a duplicate output column name, key columns of different dtypes, a missing key
  column), and the \<^verbatim>\<open>TypeError\<close> of \<^verbatim>\<open>functools.reduce\<close> on an empty sequence.
\<close>

datatype error =
    SystemExit int
  | ReadError read_error
  | ValueError string
  | DuplicateError
  | SchemaError
  | ColumnNotFoundError
  | TypeError

text \<open>The choices of the command line option \<^verbatim>\<open>--join\<close>.\<close>

datatype join_type = Inner | Full | Left | Right

section \<open>The join of polars, on the key column\<close>

text \<open>
  \<^verbatim>\<open>left.join(right, on="SampleID", how=join_type)\<close> with the defaults of polars
  (\<^verbatim>\<open>suffix="_right"\<close>, \<^verbatim>\<open>coalesce=None\<close>, null keys never match). The join first
  computes the pairs of row indices to put side by side, a missing side being null, then
  gathers every column at them. All series of a polars frame have one height, so every
  row index of the key column is a row of every other column.

  \<open>matching k s\<close> are the rows of the key cells \<open>s\<close> that match the key cell \<open>k\<close>;
  a null key matches nothing.
\<close>

definition matching :: "'v option \<Rightarrow> 'v cells \<Rightarrow> nat list" where
  "matching k s =
     (case k of None \<Rightarrow> [] | Some v \<Rightarrow> filter (\<lambda>j. s ! j = Some v) [0..<length s])"

text \<open>
  A left join goes through the left frame in its order: every left row with each of the
  right rows that match it, or alone. A right join does the same from the right frame.
\<close>

definition left_pairs :: "'v cells \<Rightarrow> 'v cells \<Rightarrow> (nat option \<times> nat option) list" where
  "left_pairs lk rk =
     concat (map (\<lambda>i. if matching (lk ! i) rk = [] then [(Some i, None)]
                       else map (\<lambda>j. (Some i, Some j)) (matching (lk ! i) rk))
                 [0..<length lk])"

definition right_pairs :: "'v cells \<Rightarrow> 'v cells \<Rightarrow> (nat option \<times> nat option) list" where
  "right_pairs lk rk =
     concat (map (\<lambda>j. if matching (rk ! j) lk = [] then [(None, Some j)]
                       else map (\<lambda>i. (Some i, Some j)) (matching (rk ! j) lk))
                 [0..<length rk])"

text \<open>
  Inner and full joins go through the longer frame, the right one when the left one is
  not longer: an inner join gives the matching pairs in that order; a full join gives
  every row of that frame with its matches or alone, and then the rows of the other frame
  that matched nothing. Polars promises no row order for these joins (and gives the
  unmatched rows that come last in the order of its hash table, not of the frame): below,
  statements about inner and full joins are about sets of key values and about headers,
  and the full join evaluated has a single unmatched row to put last.
\<close>

definition inner_pairs :: "'v cells \<Rightarrow> 'v cells \<Rightarrow> (nat option \<times> nat option) list" where
  "inner_pairs lk rk =
     (if length rk < length lk
      then concat (map (\<lambda>i. map (\<lambda>j. (Some i, Some j)) (matching (lk ! i) rk)) [0..<length lk])
      else concat (map (\<lambda>j. map (\<lambda>i. (Some i, Some j)) (matching (rk ! j) lk)) [0..<length rk]))"

definition full_pairs :: "'v cells \<Rightarrow> 'v cells \<Rightarrow> (nat option \<times> nat option) list" where
  "full_pairs lk rk =
     (if length rk < length lk
      then left_pairs lk rk @
           map (\<lambda>j. (None, Some j)) (filter (\<lambda>j. matching (rk ! j) lk = []) [0..<length rk])
      else right_pairs lk rk @
           map (\<lambda>i. (Some i, None)) (filter (\<lambda>i. matching (lk ! i) rk = []) [0..<length lk]))"

fun join_pairs :: "join_type \<Rightarrow> 'v cells \<Rightarrow> 'v cells \<Rightarrow> (nat option \<times> nat option) list" where
  "join_pairs Inner lk rk = inner_pairs lk rk"
| "join_pairs Full lk rk = full_pairs lk rk"
| "join_pairs Left lk rk = left_pairs lk rk"
| "join_pairs Right lk rk = right_pairs lk rk"

text \<open>
  Gathering cells at row indices; a missing index gives a null cell. A series gathered
  keeps its dtype.
\<close>

definition take_opt :: "'v cells \<Rightarrow> nat option list \<Rightarrow> 'v cells" where
  "take_opt s idx = map (\<lambda>i. case i of None \<Rightarrow> None | Some k \<Rightarrow> s ! k) idx"

definition gather :: "'v series \<Rightarrow> nat option list \<Rightarrow> 'v series" where
  "gather s idx = (fst s, take_opt (snd s) idx)"

text \<open>
  The columns of the result. Inner, left and right joins coalesce the key: inner and left
  keep the left key column and leave the right one out, right keeps the right key column
  and leaves the left one out. A full join does not coalesce: both key columns stay, and
  the right one, colliding with the left one, is renamed with the suffix. Every right
  column whose name is a name of the left columns kept is renamed with the suffix. A
  result with two columns of one name is refused with a \<^verbatim>\<open>DuplicateError\<close>, and key
  columns of different dtypes are refused with a \<^verbatim>\<open>SchemaError\<close> (of the dtypes the
  reader infers, no two are joined by a cast).
\<close>

definition left_part :: "join_type \<Rightarrow> 'v dataframe \<Rightarrow> 'v dataframe" where
  "left_part how left = (if how = Right then drop_column left key else left)"

definition right_part :: "join_type \<Rightarrow> 'v dataframe \<Rightarrow> 'v dataframe" where
  "right_part how right = (if how = Right \<or> how = Full then right else drop_column right key)"

definition rename_right :: "string list \<Rightarrow> string \<Rightarrow> string" where
  "rename_right lnames n = (if n \<in> set lnames then n @ suffix else n)"

definition join :: "'v dataframe \<Rightarrow> 'v dataframe \<Rightarrow> join_type \<Rightarrow> error + 'v dataframe" where
  "join left right how =
     (case get_column left key of
        None \<Rightarrow> Inl ColumnNotFoundError
      | Some lk \<Rightarrow>
         (case get_column right key of
            None \<Rightarrow> Inl ColumnNotFoundError
          | Some rk \<Rightarrow>
             (let pairs = join_pairs how (snd lk) (snd rk);
                  lcols = left_part how left;
                  rcols = right_part how right;
                  out = map (\<lambda>(n, s). (n, gather s (map fst pairs))) lcols @
                        map (\<lambda>(n, s). (rename_right (map fst lcols) n,
                                         gather s (map snd pairs))) rcols
              in if \<not> distinct (map fst out) then Inl DuplicateError
                 else if fst lk \<noteq> fst rk then Inl SchemaError
                 else Inr out)))"

section \<open>The program\<close>

text \<open>
  \<^verbatim>\<open>safe_join\<close>, the closure of \<^verbatim>\<open>merge_tsv\<close> (its \<^verbatim>\<open>join_type\<close> is the first
  argument here): the join, then the column \<^verbatim>\<open>SampleID_right\<close> dropped when present.
\<close>

definition safe_join :: "join_type \<Rightarrow> 'v dataframe \<Rightarrow> 'v dataframe \<Rightarrow> error + 'v dataframe" where
  "safe_join how left right =
     (case join left right how of
        Inl e \<Rightarrow> Inl e
      | Inr joined \<Rightarrow>
          Inr (if key_right \<in> set (columns joined) then drop_column joined key_right
               else joined))"

text \<open>
  \<^verbatim>\<open>functools.reduce(safe_join, dfs)\<close>: the first frame is the accumulator, every later
  frame is joined to it from the left; the first error ends the reduction. With one frame
  \<^verbatim>\<open>safe_join\<close> is never called.
\<close>

fun reduce_from :: "join_type \<Rightarrow> 'v dataframe \<Rightarrow> 'v dataframe list \<Rightarrow> error + 'v dataframe" where
  "reduce_from how acc [] = Inr acc"
| "reduce_from how acc (d # ds) =
     (case safe_join how acc d of Inl e \<Rightarrow> Inl e | Inr joined \<Rightarrow> reduce_from how joined ds)"

definition reduce :: "join_type \<Rightarrow> 'v dataframe list \<Rightarrow> error + 'v dataframe" where
  "reduce how dfs = (case dfs of [] \<Rightarrow> Inl TypeError | d # ds \<Rightarrow> reduce_from how d ds)"

text \<open>
  The file system is a function from a path to what \<^verbatim>\<open>pl.read_csv\<close> returns or raises
  there. The list comprehension reads the files in order and stops at the first one that
  raises; \<open>read_all\<close> returns the paths it called the reader on and the frames or the error.
\<close>

type_synonym 'v filesystem = "string \<Rightarrow> read_error + 'v dataframe"

fun read_all :: "'v filesystem \<Rightarrow> string list \<Rightarrow> string list \<times> (error + 'v dataframe list)" where
  "read_all fs [] = ([], Inr [])"
| "read_all fs (f # files) =
     (case fs f of
        Inl e \<Rightarrow> ([f], Inl (ReadError e))
      | Inr df \<Rightarrow>
         (case read_all fs files of
            (paths, Inl e) \<Rightarrow> (f # paths, Inl e)
          | (paths, Inr dfs) \<Rightarrow> (f # paths, Inr (df # dfs))))"

text \<open>The message of the \<^verbatim>\<open>ValueError\<close>: \<^verbatim>\<open>f"'SampleID' column missing in file: {files[i]}"\<close>.\<close>

definition missing_message :: "string \<Rightarrow> string" where
  "missing_message f = CHR 0x27 # key @ CHR 0x27 # '' column missing in file: '' @ f"

text \<open>The validation loop over \<^verbatim>\<open>enumerate(dfs)\<close>: the first frame without the key raises.\<close>

fun validate :: "(string \<times> 'v dataframe) list \<Rightarrow> error option" where
  "validate [] = None"
| "validate ((f, df) # rest) =
     (if key \<notin> set (columns df) then Some (ValueError (missing_message f)) else validate rest)"

text \<open>
  What one call of \<^verbatim>\<open>merge_tsv\<close> does: the lines printed, the paths the reader was called
  on, the call of \<^verbatim>\<open>write_csv\<close> (path and frame) if it was reached, and what was raised.
  Nothing is written unless \<^verbatim>\<open>write_csv\<close> is called; whether that call itself
  succeeds on the output path is not part of the model.
\<close>

record 'v outcome =
  printed :: "string list"
  read_calls :: "string list"
  written :: "(string \<times> 'v dataframe) option"
  raised :: "error option"

definition stopped :: "string list \<Rightarrow> string list \<Rightarrow> error \<Rightarrow> 'v outcome" where
  "stopped out paths e = \<lparr>printed = out, read_calls = paths, written = None, raised = Some e\<rparr>"

definition merge_tsv :: "'v filesystem \<Rightarrow> string list \<Rightarrow> string \<Rightarrow> join_type \<Rightarrow> 'v outcome" where
  "merge_tsv fs files output how =
     (if files = [] then stopped [''Error: No input files provided.''] [] (SystemExit 1)
      else
        (case read_all fs files of
           (paths, Inl e) \<Rightarrow> stopped [] paths e
         | (paths, Inr dfs) \<Rightarrow>
            (case validate (zip files dfs) of
               Some e \<Rightarrow> stopped [] paths e
             | None \<Rightarrow>
                (case reduce how dfs of
                   Inl e \<Rightarrow> stopped [] paths e
                 | Inr merged_df \<Rightarrow>
                     \<lparr>printed = [], read_calls = paths,
                      written = Some (output, merged_df), raised = None\<rparr>))))"

section \<open>Auxiliary notions for the statements\<close>

text \<open>
  The key column of a join: the left key gathered at the left indices, or the right key
  gathered at the right indices in a right join.
\<close>

definition joined_key :: "join_type \<Rightarrow> 'v cells \<Rightarrow> 'v cells \<Rightarrow> 'v cells" where
  "joined_key how lk rk =
     (if how = Right then take_opt rk (map snd (join_pairs how lk rk))
      else take_opt lk (map fst (join_pairs how lk rk)))"

text \<open>How many rows of the result a row with key cell \<open>k\<close> gives in an outer join.\<close>

definition copies :: "'v option \<Rightarrow> 'v cells \<Rightarrow> nat" where
  "copies k s = (if matching k s = [] then 1 else length (matching k s))"

text \<open>The column names of the input frames other than the key.\<close>

definition other_columns :: "'v dataframe list \<Rightarrow> string set" where
  "other_columns dfs = (\<Union>d\<in>set dfs. set (columns d)) - {key}"

text \<open>
  Every name of a header other than the key is a name of \<open>S\<close>, or one with the suffix;
  and every name of \<open>S\<close> other than \<^verbatim>\<open>SampleID_right\<close> is in the header, as it is or
  with the suffix.
\<close>

definition from_inputs :: "string set \<Rightarrow> string list \<Rightarrow> bool" where
  "from_inputs S cs \<longleftrightarrow> set cs - {key} \<subseteq> S \<union> (\<lambda>c. c @ suffix) ` S"

definition keeps_inputs :: "string set \<Rightarrow> string list \<Rightarrow> bool" where
  "keeps_inputs S cs \<longleftrightarrow> (\<forall>c\<in>S. c \<noteq> key_right \<longrightarrow> c \<in> set cs \<or> c @ suffix \<in> set cs)"

text \<open>No frame of the list has a column name, other than the key, that is in \<open>S\<close> or in an earlier frame.\<close>

fun no_collisions :: "string set \<Rightarrow> 'v dataframe list \<Rightarrow> bool" where
  "no_collisions S [] = True"
| "no_collisions S (d # ds) =
     ((set (columns d) - {key}) \<inter> S = {} \<and> no_collisions (S \<union> (set (columns d) - {key})) ds)"

text \<open>
  The row pairs of a join as sets: the pairs of a left and a right row with the same key,
  which is not null; the left rows that match nothing; the right rows that match nothing.
\<close>

definition matched :: "'v cells \<Rightarrow> 'v cells \<Rightarrow> (nat option \<times> nat option) set" where
  "matched lk rk =
     {(Some i, Some j) | i j. i < length lk \<and> j < length rk \<and> lk ! i = rk ! j \<and> lk ! i \<noteq> None}"

definition left_alone :: "'v cells \<Rightarrow> 'v cells \<Rightarrow> (nat option \<times> nat option) set" where
  "left_alone lk rk = {(Some i, None) | i. i < length lk \<and> matching (lk ! i) rk = []}"

definition right_alone :: "'v cells \<Rightarrow> 'v cells \<Rightarrow> (nat option \<times> nat option) set" where
  "right_alone lk rk = {(None, Some j) | j. j < length rk \<and> matching (rk ! j) lk = []}"

text \<open>
  The header that one join step of the program gives, from the header accumulated so far
  and the header of the next table: the accumulated names, then the names of the next
  table other than the key, a name that is already among the accumulated ones getting the
  suffix; any name \<^verbatim>\<open>SampleID_right\<close> is then removed. In a right join the accumulated
  key is removed first and the key of the next table is kept. The merged header of a list
  of headers is the first one with every later one added in turn.
\<close>

definition add_header :: "join_type \<Rightarrow> string list \<Rightarrow> string list \<Rightarrow> string list" where
  "add_header how acc cols =
     (if how = Right
      then (let kept = removeAll ''SampleID'' acc
            in removeAll ''SampleID_right''
                 (kept @ map (\<lambda>c. if c \<in> set kept then c @ ''_right'' else c) cols))
      else removeAll ''SampleID_right''
             (acc @ map (\<lambda>c. if c \<in> set acc then c @ ''_right'' else c)
                        (removeAll ''SampleID'' cols)))"

definition merged_header :: "join_type \<Rightarrow> string list list \<Rightarrow> string list" where
  "merged_header how hs = (case hs of [] \<Rightarrow> [] | h # rest \<Rightarrow> foldl (add_header how) h rest)"

section \<open>Example files\<close>

text \<open>
  \<^verbatim>\<open>A.tsv\<close> and \<^verbatim>\<open>B.tsv\<close> are the two files of the end-to-end example of the
  specification. \<^verbatim>\<open>C.tsv\<close> has no column \<^verbatim>\<open>SampleID\<close> (its key is spelt in lower
  case), \<^verbatim>\<open>D.tsv\<close> and \<^verbatim>\<open>E.tsv\<close> have a column \<^verbatim>\<open>X\<close> as \<^verbatim>\<open>A.tsv\<close> has, and
  \<^verbatim>\<open>G.tsv\<close> has a data column named \<^verbatim>\<open>SampleID_right\<close>. Any other path is a file
  that does not exist.
\<close>

definition example_A :: "int dataframe" where
  "example_A = [(''SampleID'', Int64, [Some 1, Some 2]), (''X'', Int64, [Some 10, Some 20])]"

definition example_B :: "int dataframe" where
  "example_B = [(''SampleID'', Int64, [Some 2, Some 3]), (''Y'', Int64, [Some 200, Some 300])]"

definition example_C :: "int dataframe" where
  "example_C = [(''sampleid'', Int64, [Some 1, Some 2]), (''Z'', Int64, [Some 5, Some 6])]"

definition example_D :: "int dataframe" where
  "example_D = [(''SampleID'', Int64, [Some 1, Some 2]), (''X'', Int64, [Some 11, Some 21])]"

definition example_E :: "int dataframe" where
  "example_E = [(''SampleID'', Int64, [Some 2]), (''X'', Int64, [Some 22])]"

definition example_G :: "int dataframe" where
  "example_G = [(''SampleID'', Int64, [Some 2, Some 3]),
                (''SampleID_right'', Int64, [Some 7, Some 8])]"

definition example_tab :: "string \<Rightarrow> int dataframe" where
  "example_tab p =
     (if p = ''A.tsv'' then example_A else if p = ''B.tsv'' then example_B
      else if p = ''C.tsv'' then example_C else if p = ''D.tsv'' then example_D
      else if p = ''E.tsv'' then example_E else example_G)"

definition example_fs :: "int filesystem" where
  "example_fs p =
     (if p \<in> set [''A.tsv'', ''B.tsv'', ''C.tsv'', ''D.tsv'', ''E.tsv'', ''G.tsv'']
      then Inr (example_tab p) else Inl FileNotFoundError)"

section \<open>Reading and validating\<close>

lemma read_all_ok:
  "\<forall>f\<in>set files. fs f = Inr (tab f) \<Longrightarrow> read_all fs files = (files, Inr (map tab files))"
  by (induction files) auto

lemma read_all_fails:
  "k < length files \<Longrightarrow> fs (files ! k) = Inl e \<Longrightarrow> \<forall>m<k. \<exists>d. fs (files ! m) = Inr d \<Longrightarrow>
   read_all fs files = (take (Suc k) files, Inl (ReadError e))"
proof (induction files arbitrary: k)
  case Nil
  then show ?case by simp
next
  case (Cons f files)
  show ?case
  proof (cases k)
    case 0
    with Cons.prems show ?thesis by simp
  next
    case (Suc k')
    from Cons.prems Suc obtain d where d: "fs f = Inr d" by fastforce
    from Cons.prems Suc have "read_all fs files = (take (Suc k') files, Inl (ReadError e))"
      by (intro Cons.IH) auto
    with d Suc show ?thesis by simp
  qed
qed

lemma first_unreadable:
  "j < length files \<Longrightarrow> fs (files ! j) = Inl e \<Longrightarrow>
   \<exists>k\<le>j. \<exists>e'. fs (files ! k) = Inl e' \<and> (\<forall>m<k. \<exists>d. fs (files ! m) = Inr d)"
proof (induction j arbitrary: e rule: less_induct)
  case (less j)
  show ?case
  proof (cases "\<forall>m<j. \<exists>d. fs (files ! m) = Inr d")
    case True
    with less.prems show ?thesis by blast
  next
    case False
    then obtain m where m: "m < j" "\<nexists>d. fs (files ! m) = Inr d" by blast
    then obtain e' where "fs (files ! m) = Inl e'" by (cases "fs (files ! m)") auto
    with less.IH [of m e'] m less.prems obtain k e'' where
      "k \<le> m" "fs (files ! k) = Inl e''" "\<forall>m<k. \<exists>d. fs (files ! m) = Inr d"
      by auto
    with m show ?thesis by (intro exI [of _ k]) auto
  qed
qed

lemma validate_first:
  "length files = length dfs \<Longrightarrow> \<exists>df\<in>set dfs. key \<notin> set (columns df) \<Longrightarrow>
   \<exists>i<length files. key \<notin> set (columns (dfs ! i)) \<and> (\<forall>j<i. key \<in> set (columns (dfs ! j))) \<and>
      validate (zip files dfs) = Some (ValueError (missing_message (files ! i)))"
proof (induction files dfs rule: list_induct2)
  case Nil
  then show ?case by simp
next
  case (Cons f files df dfs)
  show ?case
  proof (cases "key \<in> set (columns df)")
    case False
    then show ?thesis by (intro exI [of _ 0]) simp
  next
    case True
    with Cons.prems have "\<exists>df\<in>set dfs. key \<notin> set (columns df)" by auto
    from Cons.IH [OF this] obtain i where i: "i < length files" "key \<notin> set (columns (dfs ! i))"
      "\<forall>j<i. key \<in> set (columns (dfs ! j))"
      "validate (zip files dfs) = Some (ValueError (missing_message (files ! i)))" by blast
    have "\<forall>j<Suc i. key \<in> set (columns ((df # dfs) ! j))"
      using True i(3) by (auto simp: less_Suc_eq_0_disj)
    with i True show ?thesis by (intro exI [of _ "Suc i"]) simp
  qed
qed

lemma validate_None_iff:
  "length files = length dfs \<Longrightarrow>
   validate (zip files dfs) = None \<longleftrightarrow> (\<forall>df\<in>set dfs. key \<in> set (columns df))"
  by (induction files dfs rule: list_induct2) auto

lemma missing_message_inj: "missing_message f = missing_message g \<Longrightarrow> f = g"
  by (simp add: missing_message_def)

lemma merge_tsv_written:
  assumes readable: "\<forall>f\<in>set files. fs f = Inr (tab f)"
      and w: "written (merge_tsv fs files output how) = Some (p, out)"
  shows "files \<noteq> [] \<and> p = output \<and> (\<forall>f\<in>set files. key \<in> set (columns (tab f))) \<and>
         reduce_from how (tab (hd files)) (map tab (tl files)) = Inr out"
proof -
  from w have ne: "files \<noteq> []"
    by (auto simp: merge_tsv_def stopped_def)
  have r: "read_all fs files = (files, Inr (map tab files))"
    using readable by (rule read_all_ok)
  from w ne r have v: "validate (zip files (map tab files)) = None"
    by (auto simp: merge_tsv_def stopped_def split: option.splits)
  then have k: "\<forall>f\<in>set files. key \<in> set (columns (tab f))"
    using validate_None_iff [of files "map tab files"] by simp
  from w ne r v have "reduce how (map tab files) = Inr out \<and> p = output"
    by (auto simp: merge_tsv_def stopped_def split: sum.splits)
  with ne k show ?thesis
    by (cases files) (auto simp: reduce_def)
qed

section \<open>Columns and lookups\<close>

lemma key_values_iff: "key_values df = {v. Some v \<in> set (key_series df)}"
  by (force simp: key_values_def List.map_filter_def)

lemma has_column_iff: "c \<in> set (columns df) \<longleftrightarrow> (\<exists>s. get_column df c = Some s)"
  by (induction df) (auto simp: columns_def get_column_def)

lemma get_column_drop_column:
  "get_column (drop_column df c) k = (if k = c then None else get_column df k)"
  by (induction df) (auto simp: get_column_def drop_column_def)

lemma columns_drop_column: "columns (drop_column df c) = removeAll c (columns df)"
  by (induction df) (auto simp: columns_def drop_column_def)

lemma get_column_gather:
  "get_column (map (\<lambda>(n, s). (n, g s)) df) c = map_option g (get_column df c)"
  by (induction df) (auto simp: get_column_def)

lemma get_column_append:
  "get_column (xs @ ys) c = (case get_column xs c of None \<Rightarrow> get_column ys c | Some s \<Rightarrow> Some s)"
  by (simp add: get_column_def map_add_def split: option.splits)

lemma suffixed_not_key: "n @ suffix \<noteq> key"
proof
  assume "n @ suffix = key"
  then have "last (n @ suffix) = last key" by simp
  then show False by (simp add: suffix_def key_def)
qed

lemma key_right_not_key: "key_right \<noteq> key"
  by (simp add: key_right_def key_def)

lemma rename_right_key: "key = rename_right lnames n \<Longrightarrow> n = key"
  using suffixed_not_key [of n] by (auto simp: rename_right_def split: if_splits)

lemma rename_right_of_key: "key \<notin> set lnames \<Longrightarrow> rename_right lnames key = key"
  by (simp add: rename_right_def)

lemma get_column_renamed:
  "key \<notin> set lnames \<Longrightarrow>
   get_column (map (\<lambda>(n, s). (rename_right lnames n, g s)) df) key = map_option g (get_column df key)"
  by (induction df) (auto simp: get_column_def rename_right_of_key dest: rename_right_key)

lemma join_key_column:
  assumes "get_column left key = Some (lt, lk)" and "get_column right key = Some (rt, rk)"
      and "join left right how = Inr out"
  shows "get_column out key = Some (lt, joined_key how lk rk) \<and> lt = rt"
proof (cases "how = Right")
  case True
  have "key \<notin> set (map fst (drop_column left key))"
    using columns_drop_column [of left key] by (simp add: columns_def)
  moreover have "get_column (drop_column left key) key = None"
    by (simp add: get_column_drop_column)
  ultimately show ?thesis
    using assms True
    by (auto simp: join_def Let_def joined_key_def left_part_def right_part_def gather_def
        get_column_append get_column_gather get_column_renamed split: if_splits)
next
  case False
  then show ?thesis
    using assms
    by (auto simp: join_def Let_def joined_key_def left_part_def gather_def
        get_column_append get_column_gather split: if_splits)
qed

lemma safe_join_key_column:
  assumes "get_column left key = Some (lt, lk)" and "get_column right key = Some (rt, rk)"
      and "safe_join how left right = Inr out"
  shows "get_column out key = Some (lt, joined_key how lk rk) \<and> lt = rt"
proof -
  from assms(3) obtain j where j: "join left right how = Inr j"
    and out: "out = (if key_right \<in> set (columns j) then drop_column j key_right else j)"
    by (auto simp: safe_join_def split: sum.splits)
  from join_key_column [OF assms(1,2) j] out show ?thesis
    by (simp add: get_column_drop_column key_right_not_key [symmetric])
qed

section \<open>The row pairs of a join\<close>

text \<open>
  The pairs of a join as a set, whatever their order: an inner join has the matched pairs,
  an outer join adds the rows that match nothing, alone. Every index is a row of its key
  column, so that in a frame whose series have one height every cell gathered exists.
\<close>

lemma in_matching: "j \<in> set (matching k s) \<longleftrightarrow> j < length s \<and> s ! j = k \<and> k \<noteq> None"
  by (cases k) (auto simp: matching_def)

lemma matching_empty_iff: "matching k s = [] \<longleftrightarrow> (k = None \<or> k \<notin> set s)"
  by (cases k) (auto simp: matching_def filter_empty_conv in_set_conv_nth)

lemma left_driven:
  "set (concat (map (\<lambda>i. map (\<lambda>j. (Some i, Some j)) (matching (lk ! i) rk)) [0..<length lk])) =
   matched lk rk"
proof (intro equalityI subsetI)
  fix p assume "p \<in> set (concat (map (\<lambda>i. map (\<lambda>j. (Some i, Some j)) (matching (lk ! i) rk)) [0..<length lk]))"
  then obtain i j where "i < length lk" "j \<in> set (matching (lk ! i) rk)" "p = (Some i, Some j)"
    by auto
  then show "p \<in> matched lk rk" unfolding in_matching matched_def by auto
next
  fix p assume "p \<in> matched lk rk"
  then obtain i j where p: "p = (Some i, Some j)" "i < length lk" "j < length rk"
    "lk ! i = rk ! j" "lk ! i \<noteq> None" unfolding matched_def by blast
  then have "j \<in> set (matching (lk ! i) rk)" unfolding in_matching by simp
  with p(1,2) show "p \<in> set (concat (map (\<lambda>i. map (\<lambda>j. (Some i, Some j)) (matching (lk ! i) rk)) [0..<length lk]))"
    by auto
qed

lemma right_driven:
  "set (concat (map (\<lambda>j. map (\<lambda>i. (Some i, Some j)) (matching (rk ! j) lk)) [0..<length rk])) =
   matched lk rk"
proof (intro equalityI subsetI)
  fix p assume "p \<in> set (concat (map (\<lambda>j. map (\<lambda>i. (Some i, Some j)) (matching (rk ! j) lk)) [0..<length rk]))"
  then obtain i j where "j < length rk" "i \<in> set (matching (rk ! j) lk)" "p = (Some i, Some j)"
    by auto
  then show "p \<in> matched lk rk" unfolding in_matching matched_def by auto
next
  fix p assume "p \<in> matched lk rk"
  then obtain i j where p: "p = (Some i, Some j)" "i < length lk" "j < length rk"
    "lk ! i = rk ! j" "lk ! i \<noteq> None" unfolding matched_def by blast
  then have "i \<in> set (matching (rk ! j) lk)" unfolding in_matching by simp
  with p(1,3) show "p \<in> set (concat (map (\<lambda>j. map (\<lambda>i. (Some i, Some j)) (matching (rk ! j) lk)) [0..<length rk]))"
    by auto
qed

lemma set_inner_pairs: "set (inner_pairs lk rk) = matched lk rk"
  using left_driven [of lk rk] right_driven [of rk lk] by (simp add: inner_pairs_def)

lemma set_left_pairs: "set (left_pairs lk rk) = matched lk rk \<union> left_alone lk rk"
proof -
  have "set (left_pairs lk rk) =
      set (concat (map (\<lambda>i. map (\<lambda>j. (Some i, Some j)) (matching (lk ! i) rk)) [0..<length lk])) \<union>
      left_alone lk rk"
    unfolding left_pairs_def left_alone_def by (auto split: if_splits)
  with left_driven [of lk rk] show ?thesis by simp
qed

lemma set_right_pairs: "set (right_pairs lk rk) = matched lk rk \<union> right_alone lk rk"
proof -
  have "set (right_pairs lk rk) =
      set (concat (map (\<lambda>j. map (\<lambda>i. (Some i, Some j)) (matching (rk ! j) lk)) [0..<length rk])) \<union>
      right_alone lk rk"
    unfolding right_pairs_def right_alone_def by (auto split: if_splits)
  with right_driven [of rk lk] show ?thesis by simp
qed

lemma set_full_pairs:
  "set (full_pairs lk rk) = matched lk rk \<union> left_alone lk rk \<union> right_alone lk rk"
proof -
  have "(\<lambda>i. (Some i, None)) ` {i. i < length lk \<and> matching (lk ! i) rk = []} = left_alone lk rk"
    by (auto simp: left_alone_def)
  moreover
  have "(\<lambda>j. (None, Some j)) ` {j. j < length rk \<and> matching (rk ! j) lk = []} = right_alone lk rk"
    by (auto simp: right_alone_def)
  ultimately show ?thesis
    by (auto simp: full_pairs_def set_left_pairs set_right_pairs)
qed

lemma set_join_pairs:
  "set (join_pairs how lk rk) =
     matched lk rk \<union> (if how = Left \<or> how = Full then left_alone lk rk else {}) \<union>
     (if how = Right \<or> how = Full then right_alone lk rk else {})"
  by (cases how) (auto simp: set_inner_pairs set_left_pairs set_right_pairs set_full_pairs)

lemma join_pairs_in_range:
  assumes "(i, j) \<in> set (join_pairs how lk rk)"
  shows "(\<forall>a. i = Some a \<longrightarrow> a < length lk) \<and> (\<forall>b. j = Some b \<longrightarrow> b < length rk)"
  using assms unfolding set_join_pairs matched_def left_alone_def right_alone_def
  by (auto split: if_splits)

lemma join_pairs_match:
  assumes "(Some a, Some b) \<in> set (join_pairs how lk rk)"
  shows "lk ! a = rk ! b \<and> lk ! a \<noteq> None"
proof -
  from assms have "(Some a, Some b) \<in> matched lk rk"
    unfolding set_join_pairs left_alone_def right_alone_def by (auto split: if_splits)
  then show ?thesis unfolding matched_def by blast
qed

section \<open>The key series of a join\<close>

lemma map_nth_fun: "map (\<lambda>i. h (xs ! i)) [0..<length xs] = map h xs"
proof -
  have "map (\<lambda>i. h (xs ! i)) [0..<length xs] = map h (map (\<lambda>i. xs ! i) [0..<length xs])"
    by (simp add: comp_def)
  then show ?thesis by (simp add: map_nth)
qed

lemma take_opt_concat: "take_opt s (concat xss) = concat (map (take_opt s) xss)"
  by (induction xss) (simp_all add: take_opt_def)

lemma take_opt_same: "take_opt s (map (\<lambda>j. Some i) ms) = replicate (length ms) (s ! i)"
  by (induction ms) (auto simp: take_opt_def)

lemma set_take_opt:
  "set (take_opt s (map f ps)) = (\<lambda>p. case f p of None \<Rightarrow> None | Some k \<Rightarrow> s ! k) ` set ps"
  by (auto simp: take_opt_def)

lemma copies_pos: "0 < copies k s"
  by (simp add: copies_def)

lemma joined_key_Left:
  "joined_key Left lk rk = concat (map (\<lambda>k. replicate (copies k rk) k) lk)"
proof -
  have "take_opt lk (map fst (if matching (lk ! i) rk = [] then [(Some i, None)]
            else map (\<lambda>j. (Some i, Some j)) (matching (lk ! i) rk))) =
        replicate (copies (lk ! i) rk) (lk ! i)" for i
    by (simp add: copies_def comp_def take_opt_same) (simp add: take_opt_def)
  then have "joined_key Left lk rk =
          concat (map (\<lambda>i. replicate (copies (lk ! i) rk) (lk ! i)) [0..<length lk])"
    by (simp add: joined_key_def left_pairs_def map_concat take_opt_concat comp_def)
  then show ?thesis
    by (simp add: map_nth_fun [of "\<lambda>k. replicate (copies k rk) k" lk])
qed


lemma set_joined_key_Left: "set (joined_key Left lk rk) = set lk"
  using copies_pos by (auto simp: joined_key_Left)

lemma set_joined_key_Full: "set (joined_key Full lk rk) - {None} = set lk - {None}"
proof -
  have s: "set (joined_key Full lk rk) =
          (\<lambda>p. case fst p of None \<Rightarrow> None | Some k \<Rightarrow> lk ! k) `
            (matched lk rk \<union> left_alone lk rk \<union> right_alone lk rk)"
    by (simp add: joined_key_def set_take_opt set_full_pairs)
  show ?thesis
  proof (intro equalityI subsetI)
    fix k assume k: "k \<in> set (joined_key Full lk rk) - {None}"
    then obtain p where p: "p \<in> matched lk rk \<union> left_alone lk rk \<union> right_alone lk rk"
      "k = (case fst p of None \<Rightarrow> None | Some a \<Rightarrow> lk ! a)"
      unfolding s by blast
    with k obtain i where "fst p = Some i" by (cases "fst p") auto
    with p have "i < length lk" "k = lk ! i"
      unfolding matched_def left_alone_def right_alone_def by auto
    with k show "k \<in> set lk - {None}" using nth_mem [of i lk] by simp
  next
    fix k assume k: "k \<in> set lk - {None}"
    then obtain i where i: "i < length lk" "lk ! i = k" by (auto simp: in_set_conv_nth)
    show "k \<in> set (joined_key Full lk rk) - {None}"
    proof (cases "matching (lk ! i) rk = []")
      case True
      with i have "(Some i, None) \<in> matched lk rk \<union> left_alone lk rk \<union> right_alone lk rk"
        by (simp add: left_alone_def)
      then have "(case fst (Some i, None :: nat option) of None \<Rightarrow> None | Some a \<Rightarrow> lk ! a)
                   \<in> set (joined_key Full lk rk)"
        unfolding s by (rule imageI)
      with i k show ?thesis by simp
    next
      case False
      then obtain j where "j \<in> set (matching (lk ! i) rk)"
        by (cases "matching (lk ! i) rk") auto
      then have "j < length rk" "rk ! j = lk ! i" "lk ! i \<noteq> None"
        unfolding in_matching by simp_all
      with i have "(Some i, Some j) \<in> matched lk rk \<union> left_alone lk rk \<union> right_alone lk rk"
        by (simp add: matched_def)
      then have "(case fst (Some i, Some j) of None \<Rightarrow> None | Some a \<Rightarrow> lk ! a)
                   \<in> set (joined_key Full lk rk)"
        unfolding s by (rule imageI)
      with i k show ?thesis by simp
    qed
  qed
qed

section \<open>The key series of the reduction\<close>

lemma key_dtype_Some: "key \<in> set (columns df) \<Longrightarrow> \<exists>t. key_dtype df = Some t"
  by (auto simp: has_column_iff key_dtype_def)

lemma safe_join_key_series:
  assumes "key \<in> set (columns left)" and "key \<in> set (columns right)"
      and "safe_join how left right = Inr out"
  shows "key \<in> set (columns out) \<and>
         key_series out = joined_key how (key_series left) (key_series right) \<and>
         key_dtype out = key_dtype left \<and> key_dtype right = key_dtype left"
proof -
  from assms(1,2) obtain lt lk rt rk where
    k: "get_column left key = Some (lt, lk)" "get_column right key = Some (rt, rk)"
    by (auto simp: has_column_iff)
  from safe_join_key_column [OF k assms(3)] k show ?thesis
    by (simp add: has_column_iff key_series_def key_dtype_def)
qed







lemma reduce_from_Full_keys:
  "key \<in> set (columns acc) \<Longrightarrow> \<forall>d\<in>set ds. key \<in> set (columns d) \<Longrightarrow>
   reduce_from Full acc ds = Inr out \<Longrightarrow>
   key_values out = key_values acc"
proof (induction ds arbitrary: acc)
  case Nil
  then show ?case by simp
next
  case (Cons d ds)
  from Cons.prems(3) obtain j where j: "safe_join Full acc d = Inr j"
    and r: "reduce_from Full j ds = Inr out"
    by (auto split: sum.splits)
  from Cons.prems(1,2) j have kj: "key \<in> set (columns j)"
    and sj: "key_series j = joined_key Full (key_series acc) (key_series d)"
    using safe_join_key_series [of acc d Full j] by auto
  have "key_values j = key_values acc"
    using set_joined_key_Full [of "key_series acc" "key_series d"]
    by (auto simp: key_values_iff sj)
  with Cons.IH [OF kj _ r] Cons.prems(2) show ?case by simp
qed


section \<open>The header of a join and of the reduction\<close>

lemma key_suffix: "key @ suffix = key_right"
  by (simp add: key_def suffix_def key_right_def)

lemma suffixed_key_right_iff: "c @ suffix = key_right \<longleftrightarrow> c = key"
  unfolding key_suffix [symmetric] by simp

lemma join_columns:
  assumes "join left right how = Inr out"
  shows "columns out = columns (left_part how left) @
           map (rename_right (columns (left_part how left))) (columns (right_part how right))"
    and "distinct (columns out)"
  using assms
  by (auto simp: join_def Let_def columns_def comp_def case_prod_unfold
      split: option.splits if_splits)

lemma safe_join_columns:
  assumes "safe_join how left right = Inr out"
  shows "\<exists>j. join left right how = Inr j \<and> columns out = removeAll key_right (columns j)"
  using assms
  by (auto simp: safe_join_def columns_drop_column split: sum.splits if_splits)

lemma safe_join_distinct: "safe_join how left right = Inr out \<Longrightarrow> distinct (columns out)"
  using safe_join_columns [of how left right out] join_columns(2) [of left right how]
  by (auto simp: distinct_removeAll)

lemma set_left_part:
  "set (columns (left_part how left)) =
     (if how = Right then set (columns left) - {key} else set (columns left))"
  by (simp add: left_part_def columns_drop_column)

lemma set_right_part:
  "set (columns (right_part how right)) =
     (if how = Right \<or> how = Full then set (columns right) else set (columns right) - {key})"
  by (simp add: right_part_def columns_drop_column)

lemma safe_join_set_columns:
  assumes "safe_join how left right = Inr out"
  shows "set (columns out) =
           (set (columns (left_part how left)) \<union>
            rename_right (columns (left_part how left)) ` set (columns (right_part how right))) -
           {key_right}"
proof -
  from safe_join_columns [OF assms] obtain j where j: "join left right how = Inr j"
    and c: "columns out = removeAll key_right (columns j)" by blast
  show ?thesis unfolding c join_columns(1) [OF j] by auto
qed

lemma rename_right_cases: "rename_right ls n = n \<or> rename_right ls n = n @ suffix"
  by (simp add: rename_right_def)

lemma safe_join_from_inputs:
  assumes j: "safe_join how left right = Inr out"
      and kl: "key \<in> set (columns left)"
      and S: "from_inputs S (columns left)"
  shows "from_inputs (S \<union> (set (columns right) - {key})) (columns out)"
  unfolding from_inputs_def
proof
  fix c assume c: "c \<in> set (columns out) - {key}"
  then have ne: "c \<noteq> key_right" "c \<noteq> key"
    using safe_join_set_columns [OF j] by auto
  from c consider (l) "c \<in> set (columns left)"
    | (r) n where "n \<in> set (columns right)"
        "c = rename_right (columns (left_part how left)) n"
    using safe_join_set_columns [OF j] by (auto simp: set_left_part set_right_part split: if_splits)
  then show "c \<in> S \<union> (set (columns right) - {key}) \<union>
               (\<lambda>c. c @ suffix) ` (S \<union> (set (columns right) - {key}))"
  proof cases
    case l
    with S ne show ?thesis by (auto simp: from_inputs_def)
  next
    case r
    show ?thesis
    proof (cases "n = key")
      case True
      with r ne rename_right_cases [of "columns (left_part how left)" n]
      show ?thesis by (auto simp: key_suffix)
    next
      case False
      with r rename_right_cases [of "columns (left_part how left)" n]
      show ?thesis by auto
    qed
  qed
qed

lemma safe_join_keeps_inputs:
  assumes j: "safe_join how left right = Inr out"
      and S: "keeps_inputs S (columns left)" and kS: "key \<notin> S"
  shows "keeps_inputs (S \<union> (set (columns right) - {key})) (columns out)"
  unfolding keeps_inputs_def
proof (intro ballI impI)
  fix c assume c: "c \<in> S \<union> (set (columns right) - {key})" and ne: "c \<noteq> key_right"
  from c kS have nk: "c \<noteq> key" by auto
  then have nk': "c @ suffix \<noteq> key_right" by (simp add: suffixed_key_right_iff)
  from c show "c \<in> set (columns out) \<or> c @ suffix \<in> set (columns out)"
  proof
    assume "c \<in> S"
    with S ne have "c \<in> set (columns left) \<or> c @ suffix \<in> set (columns left)"
      by (simp add: keeps_inputs_def)
    with nk ne nk' suffixed_not_key [of c] show ?thesis
      unfolding safe_join_set_columns [OF j] set_left_part by auto
  next
    assume "c \<in> set (columns right) - {key}"
    then have "c \<in> set (columns (right_part how right))"
      by (auto simp: set_right_part)
    then have "rename_right (columns (left_part how left)) c
                 \<in> rename_right (columns (left_part how left)) ` set (columns (right_part how right))"
      by (rule imageI)
    with ne nk' rename_right_cases [of "columns (left_part how left)" c] show ?thesis
      unfolding safe_join_set_columns [OF j] by auto
  qed
qed

lemma reduce_from_columns:
  assumes "reduce_from how acc ds = Inr out"
      and "key \<in> set (columns acc)" and "\<forall>d\<in>set ds. key \<in> set (columns d)"
      and "distinct (columns acc)"
      and "from_inputs S (columns acc)" and "keeps_inputs S (columns acc)" and "key \<notin> S"
  shows "distinct (columns out) \<and> key \<in> set (columns out) \<and>
         from_inputs (S \<union> other_columns ds) (columns out) \<and>
         keeps_inputs (S \<union> other_columns ds) (columns out)"
  using assms
proof (induction ds arbitrary: acc S)
  case Nil
  then show ?case by (simp add: other_columns_def)
next
  case (Cons d ds)
  from Cons.prems(1) obtain j where j: "safe_join how acc d = Inr j"
    and r: "reduce_from how j ds = Inr out"
    by (auto split: sum.splits)
  let ?S = "S \<union> (set (columns d) - {key})"
  have kj: "key \<in> set (columns j)"
    using safe_join_key_series [OF _ _ j] Cons.prems(2,3) by simp
  have "distinct (columns out) \<and> key \<in> set (columns out) \<and>
         from_inputs (?S \<union> other_columns ds) (columns out) \<and>
         keeps_inputs (?S \<union> other_columns ds) (columns out)"
  proof (rule Cons.IH [OF r kj])
    show "\<forall>d\<in>set ds. key \<in> set (columns d)" using Cons.prems(3) by simp
    show "distinct (columns j)" using j by (rule safe_join_distinct)
    show "from_inputs ?S (columns j)"
      using j Cons.prems(2,5) by (rule safe_join_from_inputs)
    show "keeps_inputs ?S (columns j)"
      using j Cons.prems(6,7) by (rule safe_join_keeps_inputs)
    show "key \<notin> ?S" using Cons.prems(7) by simp
  qed
  moreover have "?S \<union> other_columns ds = S \<union> other_columns (d # ds)"
    by (auto simp: other_columns_def)
  ultimately show ?case by simp
qed

lemma reduce_from_key_right:
  "ds \<noteq> [] \<Longrightarrow> reduce_from how acc ds = Inr out \<Longrightarrow> key_right \<notin> set (columns out)"
proof (induction ds arbitrary: acc)
  case Nil
  then show ?case by simp
next
  case (Cons d ds)
  from Cons.prems(2) obtain j where j: "safe_join how acc d = Inr j"
    and r: "reduce_from how j ds = Inr out"
    by (auto split: sum.splits)
  show ?case
  proof (cases "ds = []")
    case True
    with r have "out = j" by simp
    with safe_join_set_columns [OF j] show ?thesis by simp
  next
    case False
    from Cons.IH [OF False r] show ?thesis .
  qed
qed

lemma distinct_count_list: "distinct xs \<Longrightarrow> x \<in> set xs \<Longrightarrow> count_list xs x = 1"
  by (induction xs) auto

section \<open>When no join raises\<close>

text \<open>
  A join raises when its result would have two columns of one name, or when the two key
  columns have different dtypes. It does not when the frames have distinct column names,
  share none but the key, have no column named \<^verbatim>\<open>SampleID_right\<close> and have key
  columns of one dtype; the merged header is then the union of the input headers.
\<close>

lemma map_rename_right_disjoint:
  "set xs \<inter> set ls = {} \<Longrightarrow> map (rename_right ls) xs = xs"
  by (induction xs) (auto simp: rename_right_def)

lemma map_rename_right_key:
  "key \<in> set ls \<Longrightarrow> (set xs - {key}) \<inter> set ls = {} \<Longrightarrow>
   map (rename_right ls) xs = map (\<lambda>n. if n = key then key_right else n) xs"
  by (induction xs) (auto simp: rename_right_def key_suffix)

lemma distinct_map_key_right:
  "distinct xs \<Longrightarrow> key_right \<notin> set xs \<Longrightarrow>
   distinct (map (\<lambda>n. if n = key then key_right else n) xs)"
  by (induction xs) auto

lemma join_succeeds:
  assumes ka: "key \<in> set (columns left)" and kd: "key \<in> set (columns right)"
      and da: "distinct (columns left)" and dd: "distinct (columns right)"
      and ra: "key_right \<notin> set (columns left)" and rd: "key_right \<notin> set (columns right)"
      and disj: "(set (columns left) - {key}) \<inter> (set (columns right) - {key}) = {}"
      and kt: "key_dtype left = key_dtype right"
  shows "\<exists>j. join left right how = Inr j"
proof -
  let ?l = "columns (left_part how left)" and ?r = "columns (right_part how right)"
  have "distinct (?l @ map (rename_right ?l) ?r)"
  proof (cases how)
    case Inner
    then have l: "?l = columns left" and r: "?r = removeAll key (columns right)"
      by (simp_all add: left_part_def right_part_def columns_drop_column)
    have "set ?r \<inter> set ?l = {}" unfolding l r using disj by auto
    then have "map (rename_right ?l) ?r = ?r" by (rule map_rename_right_disjoint)
    then show ?thesis unfolding l r using da dd disj by (auto simp: distinct_removeAll)
  next
    case Left
    then have l: "?l = columns left" and r: "?r = removeAll key (columns right)"
      by (simp_all add: left_part_def right_part_def columns_drop_column)
    have "set ?r \<inter> set ?l = {}" unfolding l r using disj by auto
    then have "map (rename_right ?l) ?r = ?r" by (rule map_rename_right_disjoint)
    then show ?thesis unfolding l r using da dd disj by (auto simp: distinct_removeAll)
  next
    case Right
    then have l: "?l = removeAll key (columns left)" and r: "?r = columns right"
      by (simp_all add: left_part_def right_part_def columns_drop_column)
    have "set ?r \<inter> set ?l = {}" unfolding l r using disj by auto
    then have "map (rename_right ?l) ?r = ?r" by (rule map_rename_right_disjoint)
    then show ?thesis unfolding l r using da dd disj by (auto simp: distinct_removeAll)
  next
    case Full
    then have l: "?l = columns left" and r: "?r = columns right"
      by (simp_all add: left_part_def right_part_def)
    have m: "map (rename_right (columns left)) (columns right) =
             map (\<lambda>n. if n = key then key_right else n) (columns right)"
      using ka disj by (intro map_rename_right_key) auto
    have d2: "distinct (map (\<lambda>n. if n = key then key_right else n) (columns right))"
      using dd rd by (rule distinct_map_key_right)
    have "set (columns left) \<inter>
            set (map (\<lambda>n. if n = key then key_right else n) (columns right)) = {}"
      using ra disj by (auto split: if_splits)
    with da d2 show ?thesis unfolding l r m by simp
  qed
  moreover obtain lk rk where "get_column left key = Some lk" "get_column right key = Some rk"
    using ka kd by (auto simp: has_column_iff)
  moreover from this kt have "fst lk = fst rk" by (simp add: key_dtype_def)
  ultimately show ?thesis
    by (simp add: join_def Let_def columns_def comp_def case_prod_unfold)
qed

lemma safe_join_succeeds:
  assumes ka: "key \<in> set (columns left)" and kd: "key \<in> set (columns right)"
      and da: "distinct (columns left)" and dd: "distinct (columns right)"
      and ra: "key_right \<notin> set (columns left)" and rd: "key_right \<notin> set (columns right)"
      and disj: "(set (columns left) - {key}) \<inter> (set (columns right) - {key}) = {}"
      and kt: "key_dtype left = key_dtype right"
  shows "\<exists>j. safe_join how left right = Inr j \<and>
           set (columns j) = set (columns left) \<union> set (columns right)"
proof -
  from join_succeeds [OF assms] obtain j0 where "join left right how = Inr j0" by blast
  then obtain j where j: "safe_join how left right = Inr j"
    by (auto simp: safe_join_def)
  let ?l = "columns (left_part how left)" and ?r = "columns (right_part how right)"
  have "set (columns j) = set (columns left) \<union> set (columns right)"
  proof (cases "how = Full")
    case True
    then have l: "?l = columns left" and r: "?r = columns right"
      by (simp_all add: left_part_def right_part_def)
    have "map (rename_right ?l) ?r = map (\<lambda>n. if n = key then key_right else n) ?r"
      unfolding l r using ka disj by (intro map_rename_right_key) auto
    then have "rename_right ?l ` set ?r = (\<lambda>n. if n = key then key_right else n) ` set ?r"
      by (metis set_map)
    then show ?thesis
      unfolding safe_join_set_columns [OF j] unfolding l r using ka ra rd by auto
  next
    case False
    have "set ?r \<inter> set ?l = {}"
      using disj False by (auto simp: set_left_part set_right_part)
    then have "map (rename_right ?l) ?r = ?r" by (rule map_rename_right_disjoint)
    then have "rename_right ?l ` set ?r = set ?r" by (metis set_map)
    then show ?thesis
      unfolding safe_join_set_columns [OF j] using ka kd ra rd False
      by (auto simp: set_left_part set_right_part)
  qed
  with j show ?thesis by blast
qed

lemma reduce_from_succeeds:
  assumes "key \<in> set (columns acc)" and "distinct (columns acc)"
      and "key_right \<notin> set (columns acc)"
      and "\<forall>d\<in>set ds. key \<in> set (columns d) \<and> distinct (columns d) \<and>
             key_right \<notin> set (columns d)"
      and "no_collisions (set (columns acc) - {key}) ds"
      and "\<forall>d\<in>set ds. key_dtype d = key_dtype acc"
  shows "\<exists>out. reduce_from how acc ds = Inr out \<and>
           set (columns out) = set (columns acc) \<union> (\<Union>d\<in>set ds. set (columns d))"
  using assms
proof (induction ds arbitrary: acc)
  case Nil
  then show ?case by simp
next
  case (Cons d ds)
  from Cons.prems have "(set (columns acc) - {key}) \<inter> (set (columns d) - {key}) = {}"
    by auto
  with Cons.prems obtain j where j: "safe_join how acc d = Inr j"
    and s: "set (columns j) = set (columns acc) \<union> set (columns d)"
    using safe_join_succeeds [of acc d how] by auto
  from Cons.prems have t: "key_dtype j = key_dtype acc"
    using safe_join_key_series [of acc d how j] j by simp
  have "set (columns j) - {key} = (set (columns acc) - {key}) \<union> (set (columns d) - {key})"
    using s by auto
  with Cons.prems(5) have nc: "no_collisions (set (columns j) - {key}) ds" by simp
  have "\<exists>out. reduce_from how j ds = Inr out \<and>
           set (columns out) = set (columns j) \<union> (\<Union>d\<in>set ds. set (columns d))"
  proof (rule Cons.IH)
    show "key \<in> set (columns j)" using s Cons.prems(1) by simp
    show "distinct (columns j)" using j by (rule safe_join_distinct)
    show "key_right \<notin> set (columns j)" using s Cons.prems(3,4) by simp
    show "\<forall>d\<in>set ds. key \<in> set (columns d) \<and> distinct (columns d) \<and>
             key_right \<notin> set (columns d)" using Cons.prems(4) by simp
    show "no_collisions (set (columns j) - {key}) ds" by (rule nc)
    show "\<forall>d\<in>set ds. key_dtype d = key_dtype j" using Cons.prems(6) t by simp
  qed
  with j s show ?case by auto
qed

lemma merge_tsv_succeeds:
  assumes ne: "files \<noteq> []"
      and readable: "\<forall>f\<in>set files. fs f = Inr (tab f)"
      and wf: "\<forall>f\<in>set files. key \<in> set (columns (tab f)) \<and> distinct (columns (tab f)) \<and>
             key_right \<notin> set (columns (tab f))"
      and nc: "no_collisions {} (map tab files)"
      and kt: "\<forall>f\<in>set files. key_dtype (tab f) = key_dtype (tab (hd files))"
  shows "\<exists>out. merge_tsv fs files output how =
             \<lparr>printed = [], read_calls = files, written = Some (output, out), raised = None\<rparr> \<and>
           set (columns out) = (\<Union>f\<in>set files. set (columns (tab f)))"
proof -
  from ne obtain f rest where files: "files = f # rest" by (cases files) auto
  have "\<exists>out. reduce_from how (tab f) (map tab rest) = Inr out \<and>
           set (columns out) = set (columns (tab f)) \<union> (\<Union>d\<in>set (map tab rest). set (columns d))"
    using wf nc kt unfolding files by (intro reduce_from_succeeds) auto
  then obtain out where out: "reduce how (map tab files) = Inr out"
    "set (columns out) = (\<Union>f\<in>set files. set (columns (tab f)))"
    unfolding files by (auto simp: reduce_def)
  have "read_all fs files = (files, Inr (map tab files))"
    using readable by (rule read_all_ok)
  moreover have "validate (zip files (map tab files)) = None"
    using wf validate_None_iff [of files "map tab files"] by simp
  ultimately have "merge_tsv fs files output how =
             \<lparr>printed = [], read_calls = files, written = Some (output, out), raised = None\<rparr>"
    using ne out(1) by (simp add: merge_tsv_def)
  with out(2) show ?thesis by blast
qed

section \<open>What a merge of tables with the key can raise\<close>

text \<open>
  Once every file is read and every table has the key, the errors left are those of a
  join: the \<^verbatim>\<open>DuplicateError\<close> and the \<^verbatim>\<open>SchemaError\<close>.
\<close>

lemma join_raises_only:
  assumes "key \<in> set (columns left)" and "key \<in> set (columns right)"
  shows "(\<exists>out. join left right how = Inr out) \<or> join left right how = Inl DuplicateError \<or>
         join left right how = Inl SchemaError"
proof -
  from assms obtain lk rk where "get_column left key = Some lk" "get_column right key = Some rk"
    by (auto simp: has_column_iff)
  then show ?thesis by (simp add: join_def Let_def)
qed

lemma reduce_from_raises_only:
  "key \<in> set (columns acc) \<Longrightarrow> \<forall>d\<in>set ds. key \<in> set (columns d) \<Longrightarrow>
   (\<exists>out. reduce_from how acc ds = Inr out) \<or> reduce_from how acc ds = Inl DuplicateError \<or>
   reduce_from how acc ds = Inl SchemaError"
proof (induction ds arbitrary: acc)
  case Nil
  then show ?case by simp
next
  case (Cons d ds)
  from Cons.prems join_raises_only [of acc d how]
  consider j where "safe_join how acc d = Inr j" | "safe_join how acc d = Inl DuplicateError"
    | "safe_join how acc d = Inl SchemaError"
    by (auto simp: safe_join_def)
  then show ?case
  proof cases
    case 1
    with Cons.prems have "key \<in> set (columns j)"
      using safe_join_key_series [of acc d how j] by simp
    from Cons.IH [OF this] Cons.prems(2) 1 show ?thesis by simp
  next
    case 2
    then show ?thesis by simp
  next
    case 3
    then show ?thesis by simp
  qed
qed

lemma merge_tsv_raises_only:
  assumes "files \<noteq> []"
      and "\<forall>f\<in>set files. fs f = Inr (tab f)"
      and "\<forall>f\<in>set files. key \<in> set (columns (tab f))"
  shows "(\<exists>out. merge_tsv fs files output how =
            \<lparr>printed = [], read_calls = files, written = Some (output, out), raised = None\<rparr>) \<or>
         merge_tsv fs files output how =
            \<lparr>printed = [], read_calls = files, written = None, raised = Some DuplicateError\<rparr> \<or>
         merge_tsv fs files output how =
            \<lparr>printed = [], read_calls = files, written = None, raised = Some SchemaError\<rparr>"
proof -
  from assms(1) obtain f rest where files: "files = f # rest" by (cases files) auto
  have r: "read_all fs files = (files, Inr (map tab files))"
    using assms(2) by (rule read_all_ok)
  have v: "validate (zip files (map tab files)) = None"
    using assms(3) validate_None_iff [of files "map tab files"] by simp
  have "(\<exists>out. reduce_from how (tab f) (map tab rest) = Inr out) \<or>
        reduce_from how (tab f) (map tab rest) = Inl DuplicateError \<or>
        reduce_from how (tab f) (map tab rest) = Inl SchemaError"
    using assms(3) unfolding files by (intro reduce_from_raises_only) auto
  then have "(\<exists>out. reduce how (map tab files) = Inr out) \<or>
        reduce how (map tab files) = Inl DuplicateError \<or>
        reduce how (map tab files) = Inl SchemaError"
    unfolding files by (simp add: reduce_def)
  with assms(1) r v show ?thesis
    by (auto simp: merge_tsv_def stopped_def)
qed

section \<open>The header of a join step, exactly\<close>

lemma add_header_eq:
  "add_header how acc cols =
     (if how = Right
      then removeAll key_right (removeAll key acc @ map (rename_right (removeAll key acc)) cols)
      else removeAll key_right (acc @ map (rename_right acc) (removeAll key cols)))"
proof -
  have "rename_right ls = (\<lambda>c. if c \<in> set ls then c @ ''_right'' else c)" for ls
    by (rule ext) (simp add: rename_right_def suffix_def)
  then show ?thesis
    by (simp add: add_header_def Let_def key_def key_right_def)
qed

lemma removeAll_renamed_key:
  "key \<in> set acc \<Longrightarrow>
   removeAll key_right (map (rename_right acc) cols) =
   removeAll key_right (map (rename_right acc) (removeAll key cols))"
  by (induction cols) (auto simp: rename_right_def key_suffix)

lemma safe_join_header:
  assumes j: "safe_join how left right = Inr out" and k: "key \<in> set (columns left)"
  shows "columns out = add_header how (columns left) (columns right)"
proof -
  from safe_join_columns [OF j] obtain j0 where j0: "join left right how = Inr j0"
    and c: "columns out = removeAll key_right (columns j0)" by blast
  show ?thesis
  proof (cases how)
    case Full
    then show ?thesis
      unfolding c join_columns(1) [OF j0]
      using removeAll_renamed_key [OF k, of "columns right"]
      by (simp add: add_header_eq left_part_def right_part_def)
  qed (simp_all add: c join_columns(1) [OF j0] add_header_eq left_part_def right_part_def
        columns_drop_column)
qed

lemma reduce_from_header:
  "reduce_from how acc ds = Inr out \<Longrightarrow> key \<in> set (columns acc) \<Longrightarrow>
   \<forall>d\<in>set ds. key \<in> set (columns d) \<Longrightarrow>
   columns out = foldl (add_header how) (columns acc) (map columns ds)"
proof (induction ds arbitrary: acc)
  case Nil
  then show ?case by simp
next
  case (Cons d ds)
  from Cons.prems(1) obtain j where j: "safe_join how acc d = Inr j"
    and r: "reduce_from how j ds = Inr out"
    by (auto split: sum.splits)
  have kj: "key \<in> set (columns j)"
    using safe_join_key_series [OF _ _ j] Cons.prems(2,3) by simp
  from Cons.IH [OF r kj] Cons.prems(3)
  have "columns out = foldl (add_header how) (columns j) (map columns ds)" by simp
  then show ?case using safe_join_header [OF j Cons.prems(2)] by simp
qed

section \<open>Full join\<close>

text \<open>
  In a full join polars keeps both key columns: a row that only the right frame has gets a
  null in \<^verbatim>\<open>SampleID\<close> and its key in \<^verbatim>\<open>SampleID_right\<close>, the column that
  \<^verbatim>\<open>safe_join\<close> then drops. The key values of the merged table are therefore those of
  the first file, whatever the later files hold.
\<close>

lemma merge_tsv_full_key_values:
  assumes "\<forall>f\<in>set files. fs f = Inr (tab f)"
      and "written (merge_tsv fs files output Full) = Some (p, out)"
  shows "key_values out = key_values (tab (hd files))"
proof -
  from merge_tsv_written [OF assms] have ne: "files \<noteq> []"
    and k: "\<forall>f\<in>set files. key \<in> set (columns (tab f))"
    and r: "reduce_from Full (tab (hd files)) (map tab (tl files)) = Inr out"
    by auto
  from ne k have "key \<in> set (columns (tab (hd files)))" by simp
  moreover from ne k have "\<forall>d\<in>set (map tab (tl files)). key \<in> set (columns d)"
    by (cases files) auto
  ultimately show ?thesis using r by (rule reduce_from_Full_keys)
qed

text \<open>
  C1: merging with \<^verbatim>\<open>full\<close> should give rows whose \<^verbatim>\<open>SampleID\<close> values are the union
  of the \<^verbatim>\<open>SampleID\<close> values of all input tables, the cells without a source value
  being null. On the two files of the end-to-end example of the specification
  (\<^verbatim>\<open>A.tsv\<close> with samples 1 and 2, \<^verbatim>\<open>B.tsv\<close> with samples 2 and 3) the program
  writes three rows with the \<^verbatim>\<open>SampleID\<close> cells 2, null and 1: the row of sample 3
  carries its \<^verbatim>\<open>Y\<close> value 300 and no identifier. The \<^verbatim>\<open>SampleID\<close> values of the
  output are 1 and 2, with a null cell besides, while the union of the \<^verbatim>\<open>SampleID\<close>
  values of the two files is 1, 2 and 3.
\<close>

theorem merge_tsv_full_example:
  "merge_tsv example_fs [''A.tsv'', ''B.tsv''] ''out.tsv'' Full =
     \<lparr>printed = [], read_calls = [''A.tsv'', ''B.tsv''],
      written = Some (''out.tsv'',
        [(''SampleID'', Int64, [Some 2, None, Some 1]),
         (''X'', Int64, [Some 20, None, Some 10]),
         (''Y'', Int64, [Some 200, Some 300, None])]),
      raised = None\<rparr> \<and>
   key_values [(''SampleID'', Int64, [Some 2, None, Some (1::int)]),
               (''X'', Int64, [Some 20, None, Some 10]),
               (''Y'', Int64, [Some 200, Some 300, None])] = {1, 2} \<and>
   None \<in> set (key_series [(''SampleID'', Int64, [Some 2, None, Some (1::int)]),
                            (''X'', Int64, [Some 20, None, Some 10]),
                            (''Y'', Int64, [Some 200, Some 300, None])]) \<and>
   key_values example_A \<union> key_values example_B = {1, 2, 3}"
proof -
  have "merge_tsv example_fs [''A.tsv'', ''B.tsv''] ''out.tsv'' Full =
     \<lparr>printed = [], read_calls = [''A.tsv'', ''B.tsv''],
      written = Some (''out.tsv'',
        [(''SampleID'', Int64, [Some 2, None, Some 1]),
         (''X'', Int64, [Some 20, None, Some 10]),
         (''Y'', Int64, [Some 200, Some 300, None])]),
      raised = None\<rparr>"
    by code_simp
  moreover have "key_values [(''SampleID'', Int64, [Some 2, None, Some (1::int)]),
               (''X'', Int64, [Some 20, None, Some 10]),
               (''Y'', Int64, [Some 200, Some 300, None])] = {1, 2}"
    by (auto simp: key_values_iff key_series_def get_column_def key_def)
  moreover have "None \<in> set (key_series [(''SampleID'', Int64, [Some 2, None, Some (1::int)]),
                            (''X'', Int64, [Some 20, None, Some 10]),
                            (''Y'', Int64, [Some 200, Some 300, None])])"
    by (simp add: key_series_def get_column_def key_def)
  moreover have "key_values example_A \<union> key_values example_B = {1, 2, 3}"
    by (auto simp: key_values_iff key_series_def get_column_def key_def example_A_def
        example_B_def)
  ultimately show ?thesis by blast
qed

section \<open>A missing key column\<close>

text \<open>
  The statement of C2 as the specification has it (whenever some input table has no column
  \<^verbatim>\<open>SampleID\<close>, the merge fails with the validation error that names the file) fails
  when a later file cannot be read: every file is read before any table is validated, so
  the error of the reader is raised and the missing column is never reported. Here
  \<^verbatim>\<open>C.tsv\<close> has no column \<^verbatim>\<open>SampleID\<close> and the file after it does not exist.
\<close>

theorem merge_tsv_missing_key_counterexample:
  "example_fs ''C.tsv'' = Inr example_C \<and> key \<notin> set (columns example_C) \<and>
   merge_tsv example_fs [''A.tsv'', ''C.tsv'', ''nowhere.tsv''] ''out.tsv'' Inner =
     \<lparr>printed = [], read_calls = [''A.tsv'', ''C.tsv'', ''nowhere.tsv''], written = None,
      raised = Some (ReadError FileNotFoundError)\<rparr>"
  by code_simp

text \<open>
  C2, amended: when every file of the list is read into a table and some table has no
  column named exactly \<^verbatim>\<open>SampleID\<close>, \<^verbatim>\<open>merge_tsv\<close> raises the \<^verbatim>\<open>ValueError\<close> whose
  message is \<^verbatim>\<open>'SampleID' column missing in file: \<close> followed by the path of the first
  such file, after reading all files and before any join; \<^verbatim>\<open>write_csv\<close> is not called.
\<close>

theorem merge_tsv_missing_key:
  assumes readable: "\<forall>f\<in>set files. fs f = Inr (tab f)"
      and missing: "\<exists>f\<in>set files. key \<notin> set (columns (tab f))"
  shows "\<exists>i<length files.
           key \<notin> set (columns (tab (files ! i))) \<and>
           (\<forall>j<i. key \<in> set (columns (tab (files ! j)))) \<and>
           merge_tsv fs files output how =
             \<lparr>printed = [], read_calls = files, written = None,
              raised = Some (ValueError
                (CHR 0x27 # ''SampleID'' @ CHR 0x27 # '' column missing in file: '' @ files ! i))\<rparr>"
proof -
  from missing have ne: "files \<noteq> []" by auto
  have r: "read_all fs files = (files, Inr (map tab files))"
    using readable by (rule read_all_ok)
  from missing have "\<exists>df\<in>set (map tab files). key \<notin> set (columns df)" by auto
  with validate_first [of files "map tab files"]
  obtain i where i: "i < length files" "key \<notin> set (columns (map tab files ! i))"
    "\<forall>j<i. key \<in> set (columns (map tab files ! j))"
    "validate (zip files (map tab files)) = Some (ValueError (missing_message (files ! i)))"
    by auto
  from i(1,2) have a: "key \<notin> set (columns (tab (files ! i)))" by simp
  from i(1,3) have b: "\<forall>j<i. key \<in> set (columns (tab (files ! j)))" by simp
  have "merge_tsv fs files output how =
             \<lparr>printed = [], read_calls = files, written = None,
              raised = Some (ValueError
                (CHR 0x27 # ''SampleID'' @ CHR 0x27 # '' column missing in file: '' @ files ! i))\<rparr>"
    using ne r i(4) by (simp add: merge_tsv_def stopped_def missing_message_def key_def)
  with i(1) a b show ?thesis by blast
qed

text \<open>
  The theorem at the files \<^verbatim>\<open>A.tsv\<close>, \<^verbatim>\<open>C.tsv\<close>, \<^verbatim>\<open>B.tsv\<close>, the second of which
  spells its key \<^verbatim>\<open>sampleid\<close>: the message names \<^verbatim>\<open>C.tsv\<close>.
\<close>

theorem merge_tsv_missing_key_witness:
  "merge_tsv example_fs [''A.tsv'', ''C.tsv'', ''B.tsv''] ''out.tsv'' Inner =
     \<lparr>printed = [], read_calls = [''A.tsv'', ''C.tsv'', ''B.tsv''], written = None,
      raised = Some (ValueError
        (CHR 0x27 # ''SampleID'' @ CHR 0x27 # '' column missing in file: C.tsv''))\<rparr>"
proof -
  let ?files = "[''A.tsv'', ''C.tsv'', ''B.tsv'']"
  have r: "\<forall>f\<in>set ?files. example_fs f = Inr (example_tab f)"
    by (simp add: example_fs_def)
  have m: "\<exists>f\<in>set ?files. key \<notin> set (columns (example_tab f))"
    by (simp add: example_tab_def example_C_def columns_def key_def)
  from merge_tsv_missing_key [OF r m, of "''out.tsv''" Inner]
  obtain i where i: "i < length ?files" "key \<notin> set (columns (example_tab (?files ! i)))"
    "merge_tsv example_fs ?files ''out.tsv'' Inner =
       \<lparr>printed = [], read_calls = ?files, written = None,
        raised = Some (ValueError
          (CHR 0x27 # ''SampleID'' @ CHR 0x27 # '' column missing in file: '' @ ?files ! i))\<rparr>"
    by blast
  from i(1) have "i = 0 \<or> i = 1 \<or> i = 2" by auto
  with i(2) have "i = 1"
    by (auto simp: example_tab_def example_A_def example_B_def columns_def key_def)
  with i(3) show ?thesis by simp
qed

section \<open>Inner join\<close>



section \<open>The header of the merged table\<close>

text \<open>
  The statement of C4 as the specification has it (every merge of tables with the key
  gives one output table, whose header is \<^verbatim>\<open>SampleID\<close> once and the union of the other
  input columns) fails at two inputs. Three files that share the column \<^verbatim>\<open>X\<close>: the first
  join names the second copy \<^verbatim>\<open>X_right\<close>, the second join would name the third copy
  \<^verbatim>\<open>X_right\<close> again and raises a \<^verbatim>\<open>DuplicateError\<close>, so nothing is written. And a file
  with a data column named \<^verbatim>\<open>SampleID_right\<close>: the column is not in the output.
\<close>

theorem merge_tsv_header_counterexample:
  "example_fs ''A.tsv'' = Inr example_A \<and> key \<in> set (columns example_A) \<and>
   example_fs ''D.tsv'' = Inr example_D \<and> key \<in> set (columns example_D) \<and>
   example_fs ''E.tsv'' = Inr example_E \<and> key \<in> set (columns example_E) \<and>
   example_fs ''G.tsv'' = Inr example_G \<and> key \<in> set (columns example_G) \<and>
   merge_tsv example_fs [''A.tsv'', ''D.tsv'', ''E.tsv''] ''out.tsv'' Inner =
     \<lparr>printed = [], read_calls = [''A.tsv'', ''D.tsv'', ''E.tsv''],
      written = None, raised = Some DuplicateError\<rparr> \<and>
   ''SampleID_right'' \<in> set (columns example_G) \<and>
   merge_tsv example_fs [''G.tsv'', ''A.tsv''] ''out.tsv'' Left =
     \<lparr>printed = [], read_calls = [''G.tsv'', ''A.tsv''],
      written = Some (''out.tsv'',
        [(''SampleID'', Int64, [Some 2, Some 3]), (''X'', Int64, [Some 20, None])]),
      raised = None\<rparr>"
  by code_simp

text \<open>
  C4, amended: for a non-empty list of files read into tables that all have the column
  \<^verbatim>\<open>SampleID\<close> and no column name twice, and for every join mode, when the merge
  writes a table it writes it to the output path, and the header of that table is exactly
  the merged header of the input headers: the header of the first table followed, file
  by file, by the columns of each later table other than its \<^verbatim>\<open>SampleID\<close>, a column
  getting the suffix \<^verbatim>\<open>_right\<close> exactly when its name is already in the header
  accumulated so far, and any column named \<^verbatim>\<open>SampleID_right\<close> being removed after
  each join (in a right join the accumulated \<^verbatim>\<open>SampleID\<close> is removed and that of the
  later table kept in its place). This header has no name twice and has \<^verbatim>\<open>SampleID\<close>
  exactly once; besides it, it has only names of other input columns, as they are or with
  the suffix, and it has every other input column not named \<^verbatim>\<open>SampleID_right\<close>, as it
  is or with the suffix.
\<close>

theorem merge_tsv_header:
  assumes "files \<noteq> []"
      and "\<forall>f\<in>set files. fs f = Inr (tab f)"
      and "\<forall>f\<in>set files. key \<in> set (columns (tab f)) \<and> distinct (columns (tab f))"
      and "written (merge_tsv fs files output how) = Some (p, out)"
  shows "p = output \<and>
         columns out = merged_header how (map (\<lambda>f. columns (tab f)) files) \<and>
         distinct (columns out) \<and> count_list (columns out) ''SampleID'' = 1 \<and>
         set (columns out) - {''SampleID''} \<subseteq>
           other_columns (map tab files) \<union>
           (\<lambda>c. c @ ''_right'') ` other_columns (map tab files) \<and>
         (\<forall>c\<in>other_columns (map tab files).
            c \<noteq> ''SampleID_right'' \<longrightarrow>
            c \<in> set (columns out) \<or> c @ ''_right'' \<in> set (columns out))"
proof -
  let ?acc = "tab (hd files)" and ?ds = "map tab (tl files)"
  let ?S = "set (columns ?acc) - {key}"
  from merge_tsv_written [OF assms(2,4)]
  have p: "p = output" and r: "reduce_from how ?acc ?ds = Inr out" by simp_all
  from assms(1,3) have a: "key \<in> set (columns ?acc)" "distinct (columns ?acc)" by simp_all
  from assms(1,3) have b: "\<forall>d\<in>set ?ds. key \<in> set (columns d)"
    by (cases files) auto
  have "columns out = foldl (add_header how) (columns ?acc) (map columns ?ds)"
    using r a(1) b by (rule reduce_from_header)
  then have h: "columns out = merged_header how (map (\<lambda>f. columns (tab f)) files)"
    using assms(1) by (cases files) (simp_all add: merged_header_def comp_def)
  have "distinct (columns out) \<and> key \<in> set (columns out) \<and>
         from_inputs (?S \<union> other_columns ?ds) (columns out) \<and>
         keeps_inputs (?S \<union> other_columns ?ds) (columns out)"
    using r a(1) b a(2)
    by (rule reduce_from_columns) (auto simp: from_inputs_def keeps_inputs_def)
  moreover have "?S \<union> other_columns ?ds = other_columns (map tab files)"
    using assms(1) by (cases files) (auto simp: other_columns_def)
  ultimately have "distinct (columns out)" "key \<in> set (columns out)"
    "from_inputs (other_columns (map tab files)) (columns out)"
    "keeps_inputs (other_columns (map tab files)) (columns out)"
    by simp_all
  then have "distinct (columns out)" "count_list (columns out) key = 1"
    "set (columns out) - {key} \<subseteq>
       other_columns (map tab files) \<union> (\<lambda>c. c @ suffix) ` other_columns (map tab files)"
    "\<forall>c\<in>other_columns (map tab files).
       c \<noteq> key_right \<longrightarrow> c \<in> set (columns out) \<or> c @ suffix \<in> set (columns out)"
    by (simp_all add: distinct_count_list from_inputs_def keeps_inputs_def)
  then have "distinct (columns out)" "count_list (columns out) ''SampleID'' = 1"
    "set (columns out) - {''SampleID''} \<subseteq>
       other_columns (map tab files) \<union> (\<lambda>c. c @ ''_right'') ` other_columns (map tab files)"
    "\<forall>c\<in>other_columns (map tab files).
       c \<noteq> ''SampleID_right'' \<longrightarrow>
       c \<in> set (columns out) \<or> c @ ''_right'' \<in> set (columns out)"
    unfolding key_def suffix_def key_right_def by blast+
  with p h show ?thesis by blast
qed

text \<open>
  The theorem at \<^verbatim>\<open>A.tsv\<close>, \<^verbatim>\<open>D.tsv\<close>, \<^verbatim>\<open>B.tsv\<close> with \<^verbatim>\<open>left\<close>: the column
  \<^verbatim>\<open>X\<close> of \<^verbatim>\<open>D.tsv\<close> collides and is in the output as \<^verbatim>\<open>X_right\<close>, the column
  \<^verbatim>\<open>Y\<close> of \<^verbatim>\<open>B.tsv\<close> does not and keeps its name.
\<close>

theorem merge_tsv_header_witness:
  "written (merge_tsv example_fs [''A.tsv'', ''D.tsv'', ''B.tsv''] ''out.tsv'' Left) =
     Some (''out.tsv'',
       [(''SampleID'', Int64, [Some 1, Some 2]), (''X'', Int64, [Some 10, Some 20]),
        (''X_right'', Int64, [Some 11, Some 21]), (''Y'', Int64, [None, Some 200])]) \<and>
   merged_header Left [[''SampleID'', ''X''], [''SampleID'', ''X''], [''SampleID'', ''Y'']] =
     [''SampleID'', ''X'', ''X_right'', ''Y''] \<and>
   count_list [''SampleID'', ''X'', ''X_right'', ''Y''] ''SampleID'' = 1"
proof -
  let ?files = "[''A.tsv'', ''D.tsv'', ''B.tsv'']"
  have ne: "?files \<noteq> []" by simp
  have r: "\<forall>f\<in>set ?files. example_fs f = Inr (example_tab f)"
    by (simp add: example_fs_def)
  have k: "\<forall>f\<in>set ?files.
      key \<in> set (columns (example_tab f)) \<and> distinct (columns (example_tab f))"
    by (simp add: example_tab_def example_A_def example_B_def example_D_def columns_def key_def)
  have w: "written (merge_tsv example_fs ?files ''out.tsv'' Left) =
     Some (''out.tsv'',
       [(''SampleID'', Int64, [Some 1, Some 2]), (''X'', Int64, [Some 10, Some 20]),
        (''X_right'', Int64, [Some 11, Some 21]), (''Y'', Int64, [None, Some 200])])"
    by code_simp
  have c: "map (\<lambda>f. columns (example_tab f)) ?files =
             [[''SampleID'', ''X''], [''SampleID'', ''X''], [''SampleID'', ''Y'']]"
    by (simp add: example_tab_def example_A_def example_B_def example_D_def columns_def)
  from merge_tsv_header [OF ne r k w]
  have h: "columns [(''SampleID'', Int64, [Some 1, Some 2]), (''X'', Int64, [Some 10, Some 20]),
        (''X_right'', Int64, [Some 11, Some 21]), (''Y'', Int64, [None, Some (200::int)])] =
      merged_header Left (map (\<lambda>f. columns (example_tab f)) ?files)"
    and n: "count_list (columns [(''SampleID'', Int64, [Some 1, Some 2]),
        (''X'', Int64, [Some 10, Some 20]), (''X_right'', Int64, [Some 11, Some 21]),
        (''Y'', Int64, [None, Some (200::int)])]) ''SampleID'' = 1"
    by blast+
  from h have "merged_header Left
      [[''SampleID'', ''X''], [''SampleID'', ''X''], [''SampleID'', ''Y'']] =
      [''SampleID'', ''X'', ''X_right'', ''Y'']"
    unfolding c by (simp add: columns_def)
  moreover from n have "count_list [''SampleID'', ''X'', ''X_right'', ''Y''] ''SampleID'' = 1"
    by (simp add: columns_def)
  ultimately show ?thesis using w by simp
qed

section \<open>The empty list of files\<close>

text \<open>
  C5: called with an empty list of files, \<^verbatim>\<open>merge_tsv\<close> prints its usage error and exits
  with status 1 before any file is touched: the reader is called on no path and nothing is
  written.
\<close>

theorem merge_tsv_no_files:
  "merge_tsv fs [] output how =
     \<lparr>printed = [''Error: No input files provided.''], read_calls = [],
      written = None, raised = Some (SystemExit 1)\<rparr>"
  by (simp add: merge_tsv_def stopped_def)

section \<open>Left join\<close>



section \<open>A single file\<close>

text \<open>
  C7: merging the one file \<^verbatim>\<open>f\<close>, whose table has the column \<^verbatim>\<open>SampleID\<close>, writes the
  table read from \<^verbatim>\<open>f\<close> itself, whatever the join mode: the reduction of a list of one
  frame performs no join.
\<close>

theorem merge_tsv_single:
  assumes "fs f = Inr df" and "key \<in> set (columns df)"
  shows "merge_tsv fs [f] output how =
           \<lparr>printed = [], read_calls = [f], written = Some (output, df), raised = None\<rparr>"
  using assms by (simp add: merge_tsv_def reduce_def)

text \<open>The theorem at \<^verbatim>\<open>A.tsv\<close>.\<close>

theorem merge_tsv_single_witness:
  "example_fs ''A.tsv'' = Inr example_A \<and> key \<in> set (columns example_A) \<and>
   merge_tsv example_fs [''A.tsv''] ''out.tsv'' Full =
     \<lparr>printed = [], read_calls = [''A.tsv''], written = Some (''out.tsv'', example_A),
      raised = None\<rparr>"
proof -
  have r: "example_fs ''A.tsv'' = Inr example_A"
    by (simp add: example_fs_def example_tab_def)
  have k: "key \<in> set (columns example_A)"
    by (simp add: example_A_def columns_def key_def)
  from r k merge_tsv_single [of example_fs "''A.tsv''" example_A "''out.tsv''" Full]
  show ?thesis by simp
qed

section \<open>The order of the files\<close>

text \<open>
  C8: there are two tables \<open>A\<close> and \<open>B\<close> with the column \<^verbatim>\<open>SampleID\<close> such that merging
  \<open>[A, B]\<close> with \<^verbatim>\<open>left\<close> and merging \<open>[B, A]\<close> with \<^verbatim>\<open>left\<close> write different
  tables; they differ even in their sets of \<^verbatim>\<open>SampleID\<close> cells, while they have the
  same set of columns.
\<close>

theorem merge_tsv_left_order_sensitive:
  "\<exists>(fs :: int filesystem) a b A B X Y.
     fs a = Inr A \<and> fs b = Inr B \<and> key \<in> set (columns A) \<and> key \<in> set (columns B) \<and>
     written (merge_tsv fs [a, b] ''out.tsv'' Left) = Some (''out.tsv'', X) \<and>
     written (merge_tsv fs [b, a] ''out.tsv'' Left) = Some (''out.tsv'', Y) \<and>
     X \<noteq> Y \<and> set (columns X) = set (columns Y) \<and> set (key_series X) \<noteq> set (key_series Y)"
proof -
  let ?X = "[(''SampleID'', Int64, [Some 1, Some 2]), (''X'', Int64, [Some 10, Some 20]),
             (''Y'', Int64, [None, Some (200::int)])]"
  let ?Y = "[(''SampleID'', Int64, [Some 2, Some 3]), (''Y'', Int64, [Some 200, Some 300]),
             (''X'', Int64, [Some (20::int), None])]"
  have "example_fs ''A.tsv'' = Inr example_A" "example_fs ''B.tsv'' = Inr example_B"
    by (simp_all add: example_fs_def example_tab_def)
  moreover have "key \<in> set (columns example_A)" "key \<in> set (columns example_B)"
    by (simp_all add: example_A_def example_B_def columns_def key_def)
  moreover have "written (merge_tsv example_fs [''A.tsv'', ''B.tsv''] ''out.tsv'' Left) =
      Some (''out.tsv'', ?X)"
    by code_simp
  moreover have "written (merge_tsv example_fs [''B.tsv'', ''A.tsv''] ''out.tsv'' Left) =
      Some (''out.tsv'', ?Y)"
    by code_simp
  moreover have "?X \<noteq> ?Y" by simp
  moreover have "set (columns ?X) = set (columns ?Y)" by (auto simp: columns_def)
  moreover have "set (key_series ?X) \<noteq> set (key_series ?Y)"
  proof -
    have "Some 1 \<in> set (key_series ?X)" "Some 1 \<notin> set (key_series ?Y)"
      by (simp_all add: key_series_def get_column_def key_def)
    then show ?thesis by blast
  qed
  ultimately show ?thesis by blast
qed

section \<open>The column named SampleID_right\<close>

text \<open>
  C9: the result of every join step has no column named \<^verbatim>\<open>SampleID_right\<close>, wherever
  that column came from; so the table written by a merge of two files or more has no such
  column, also when an input file has a data column of that name.
\<close>

theorem safe_join_drops_key_right:
  "(safe_join how left right = Inr joined \<longrightarrow> key_right \<notin> set (columns joined)) \<and>
   ((\<forall>f\<in>set files. fs f = Inr (tab f)) \<and> 2 \<le> length files \<and>
    written (merge_tsv fs files output how) = Some (p, out) \<longrightarrow>
      key_right \<notin> set (columns out))"
proof (intro conjI impI)
  assume "safe_join how left right = Inr joined"
  from safe_join_set_columns [OF this] show "key_right \<notin> set (columns joined)" by simp
next
  assume a: "(\<forall>f\<in>set files. fs f = Inr (tab f)) \<and> 2 \<le> length files \<and>
    written (merge_tsv fs files output how) = Some (p, out)"
  then have "\<forall>f\<in>set files. fs f = Inr (tab f)"
    and "written (merge_tsv fs files output how) = Some (p, out)" by simp_all
  from merge_tsv_written [OF this]
  have r: "reduce_from how (tab (hd files)) (map tab (tl files)) = Inr out" by simp
  from a have "map tab (tl files) \<noteq> []" by (cases files) auto
  from reduce_from_key_right [OF this r] show "key_right \<notin> set (columns out)" .
qed

text \<open>
  The theorem at \<^verbatim>\<open>A.tsv\<close> and \<^verbatim>\<open>G.tsv\<close> with \<^verbatim>\<open>inner\<close>: the data column
  \<^verbatim>\<open>SampleID_right\<close> of \<^verbatim>\<open>G.tsv\<close> is not in the output.
\<close>

theorem safe_join_drops_key_right_witness:
  "key_right \<in> set (columns example_G) \<and>
   safe_join Inner example_A example_G = Inr [(''SampleID'', Int64, [Some 2]), (''X'', Int64, [Some 20])] \<and>
   key_right \<notin> set (columns [(''SampleID'', Int64, [Some 2]), (''X'', Int64, [Some (20::int)])]) \<and>
   written (merge_tsv example_fs [''A.tsv'', ''G.tsv''] ''out.tsv'' Inner) =
     Some (''out.tsv'', [(''SampleID'', Int64, [Some 2]), (''X'', Int64, [Some 20])])"
proof -
  have g: "key_right \<in> set (columns example_G)"
    by (simp add: example_G_def columns_def key_right_def)
  have j: "safe_join Inner example_A example_G = Inr [(''SampleID'', Int64, [Some 2]), (''X'', Int64, [Some 20])]"
    by code_simp
  have r: "\<forall>f\<in>set [''A.tsv'', ''G.tsv'']. example_fs f = Inr (example_tab f)"
    by (simp add: example_fs_def)
  have w: "written (merge_tsv example_fs [''A.tsv'', ''G.tsv''] ''out.tsv'' Inner) =
     Some (''out.tsv'', [(''SampleID'', Int64, [Some 2]), (''X'', Int64, [Some 20])])"
    by code_simp
  from g j r w
    safe_join_drops_key_right [of Inner example_A example_G
      "[(''SampleID'', Int64, [Some 2]), (''X'', Int64, [Some 20])]" "[''A.tsv'', ''G.tsv'']" example_fs
      example_tab "''out.tsv''" "''out.tsv''" "[(''SampleID'', Int64, [Some 2]), (''X'', Int64, [Some 20])]"]
  show ?thesis by simp
qed

section \<open>Reading before validating\<close>

text \<open>
  C10: every file is read before any table is validated. When a file has a table without
  the column \<^verbatim>\<open>SampleID\<close> and a later file cannot be read, \<^verbatim>\<open>merge_tsv\<close> raises the
  error of the reader on the first file that cannot be read, and no \<^verbatim>\<open>ValueError\<close> on
  the missing column; the reader is called on no file after that one, and nothing is
  written.
\<close>

theorem merge_tsv_read_error_first:
  assumes "i < j" and "j < length files"
      and "fs (files ! i) = Inr df" and "key \<notin> set (columns df)"
      and "fs (files ! j) = Inl e"
  shows "\<exists>k\<le>j. \<exists>e'. fs (files ! k) = Inl e' \<and> (\<forall>m<k. \<exists>d. fs (files ! m) = Inr d) \<and>
           merge_tsv fs files output how =
             \<lparr>printed = [], read_calls = take (Suc k) files, written = None,
              raised = Some (ReadError e')\<rparr>"
proof -
  from assms(2) have ne: "files \<noteq> []" by auto
  from assms(2) assms(5) first_unreadable [of j files fs e] obtain k e' where
    k: "k \<le> j" "fs (files ! k) = Inl e'" "\<forall>m<k. \<exists>d. fs (files ! m) = Inr d" by blast
  with assms(2) have "read_all fs files = (take (Suc k) files, Inl (ReadError e'))"
    by (intro read_all_fails) auto
  with ne have "merge_tsv fs files output how =
             \<lparr>printed = [], read_calls = take (Suc k) files, written = None,
              raised = Some (ReadError e')\<rparr>"
    by (simp add: merge_tsv_def stopped_def)
  with k show ?thesis by blast
qed

text \<open>
  The theorem at \<^verbatim>\<open>C.tsv\<close>, \<^verbatim>\<open>A.tsv\<close> and a file that does not exist.
\<close>

theorem merge_tsv_read_error_first_witness:
  "example_fs ''C.tsv'' = Inr example_C \<and> key \<notin> set (columns example_C) \<and>
   example_fs ''missing.tsv'' = Inl FileNotFoundError \<and>
   merge_tsv example_fs [''C.tsv'', ''A.tsv'', ''missing.tsv''] ''out.tsv'' Full =
     \<lparr>printed = [], read_calls = [''C.tsv'', ''A.tsv'', ''missing.tsv''], written = None,
      raised = Some (ReadError FileNotFoundError)\<rparr>"
proof -
  let ?files = "[''C.tsv'', ''A.tsv'', ''missing.tsv'']"
  have c: "example_fs (?files ! 0) = Inr example_C"
    by (simp add: example_fs_def example_tab_def)
  have k: "key \<notin> set (columns example_C)"
    by (simp add: example_C_def columns_def key_def)
  have m: "example_fs (?files ! 2) = Inl FileNotFoundError"
    by (simp add: example_fs_def)
  have lt: "(0::nat) < 2" "2 < length ?files" by simp_all
  have e: "merge_tsv example_fs ?files ''out.tsv'' Full =
     \<lparr>printed = [], read_calls = ?files, written = None,
      raised = Some (ReadError FileNotFoundError)\<rparr>"
    by code_simp
  from merge_tsv_read_error_first [OF lt c k m, of "''out.tsv''" Full] c k m e
  show ?thesis by simp
qed

end
